theory Spec2Isabelle
  imports Complex_Main
begin

section \<open>The rate limiters of LLD-Python/rate-limiter/main.py\<close>

text \<open>
  The two limiter classes keep a dictionary from user id to per-user state and decide
  each request from the wall clock. In the model the reading of \<^verbatim>\<open>time.time()\<close> is an
  argument of \<open>allow_requests\<close>, the object is a record that is passed in and returned
  updated, and the body guarded by \<^verbatim>\<open>with self.lock\<close> is one step. Python floats are
  modelled as reals: timestamps, token counts and rates are exact, and neither rounding
  nor NaN is represented.
\<close>

subsection \<open>Sliding window\<close>

record SlidingWindowRateLimiter =
  max_requests :: int
  time_window :: real
  user_requests :: "string \<rightharpoonup> real list"

definition SlidingWindowRateLimiter_init :: "int \<Rightarrow> real \<Rightarrow> SlidingWindowRateLimiter" where
  "SlidingWindowRateLimiter_init m w =
     \<lparr>max_requests = m, time_window = w, user_requests = Map.empty\<rparr>"

text \<open>
  Lines 26-27, \<^verbatim>\<open>while requests and requests[0] < current_time - self.time_window:
  requests.popleft()\<close>, with the cutoff as first argument.
\<close>

fun popleft_expired :: "real \<Rightarrow> real list \<Rightarrow> real list" where
  "popleft_expired cutoff [] = []"
| "popleft_expired cutoff (r # requests) =
     (if r < cutoff then popleft_expired cutoff requests else r # requests)"

text \<open>
  Lines 19-34. The deque is created empty for an unseen user, trimmed in place, and the
  clock reading appended when fewer than \<open>max_requests\<close> entries remain. The trimmed
  deque is what the dictionary holds afterwards on both branches, since \<^verbatim>\<open>popleft\<close>
  mutates the stored object.
\<close>

definition SlidingWindow_allow_requests ::
  "SlidingWindowRateLimiter \<Rightarrow> string \<Rightarrow> real \<Rightarrow> bool \<times> SlidingWindowRateLimiter" where
  "SlidingWindow_allow_requests self user_id current_time =
     (let stored = (case user_requests self user_id of None \<Rightarrow> [] | Some q \<Rightarrow> q);
          requests = popleft_expired (current_time - time_window self) stored
      in if int (length requests) < max_requests self
         then (True, self\<lparr>user_requests :=
                 (user_requests self)(user_id \<mapsto> requests @ [current_time])\<rparr>)
         else (False, self\<lparr>user_requests := (user_requests self)(user_id \<mapsto> requests)\<rparr>))"

subsection \<open>Token bucket\<close>

record bucket =
  tokens :: real
  last_refill :: real

record TokenBucketRateLimiter =
  capacity :: int
  refill_rate :: real
  buckets :: "string \<rightharpoonup> bucket"

definition TokenBucketRateLimiter_init :: "int \<Rightarrow> real \<Rightarrow> TokenBucketRateLimiter" where
  "TokenBucketRateLimiter_init c r = \<lparr>capacity = c, refill_rate = r, buckets = Map.empty\<rparr>"

text \<open>Lines 47-50: the user's bucket, created full and stamped with \<open>now\<close> when absent.\<close>

definition get_bucket :: "TokenBucketRateLimiter \<Rightarrow> string \<Rightarrow> real \<Rightarrow> bucket" where
  "get_bucket self user_id now =
     (case buckets self user_id of
        None \<Rightarrow> \<lparr>tokens = of_int (capacity self), last_refill = now\<rparr>
      | Some b \<Rightarrow> b)"

text \<open>Lines 53-57: the refill, and the unconditional update of \<open>last_refill\<close>.\<close>

definition refill :: "TokenBucketRateLimiter \<Rightarrow> bucket \<Rightarrow> real \<Rightarrow> bucket" where
  "refill self b now =
     (let elapsed = now - last_refill b;
          refill_tokens = elapsed * refill_rate self
      in \<lparr>tokens = min (of_int (capacity self)) (tokens b + refill_tokens),
          last_refill = now\<rparr>)"

text \<open>Lines 44-64.\<close>

definition TokenBucket_allow_requests ::
  "TokenBucketRateLimiter \<Rightarrow> string \<Rightarrow> real \<Rightarrow> bool \<times> TokenBucketRateLimiter" where
  "TokenBucket_allow_requests self user_id now =
     (let b = refill self (get_bucket self user_id now) now
      in if tokens b \<ge> 1
         then (True, self\<lparr>buckets := (buckets self)(user_id \<mapsto> b\<lparr>tokens := tokens b - 1\<rparr>)\<rparr>)
         else (False, self\<lparr>buckets := (buckets self)(user_id \<mapsto> b)\<rparr>))"

subsection \<open>Factory and the common interface\<close>





subsection \<open>Sequences of calls\<close>

text \<open>
  A call is a user id with the clock reading taken by that call. \<open>run_calls\<close> performs
  the calls in order on one limiter object, as the loops of the main block do, and
  returns the answers with the final object.
\<close>

fun run_calls :: "('s \<Rightarrow> string \<Rightarrow> real \<Rightarrow> bool \<times> 's) \<Rightarrow> 's \<Rightarrow> (string \<times> real) list
    \<Rightarrow> bool list \<times> 's" where
  "run_calls step s [] = ([], s)"
| "run_calls step s ((u, t) # calls) =
     (case step s u t of (r, s') \<Rightarrow>
        (case run_calls step s' calls of (rs, s'') \<Rightarrow> (r # rs, s'')))"

text \<open>The clock readings of the calls for user \<open>u\<close> that were answered \<open>True\<close>.\<close>

definition admitted :: "string \<Rightarrow> (string \<times> real) list \<Rightarrow> bool list \<Rightarrow> real list" where
  "admitted u calls rs =
     map (\<lambda>(c, r). snd c) (filter (\<lambda>(c, r). r \<and> fst c = u) (zip calls rs))"

text \<open>The trailing window of length \<open>w\<close> that ends at \<open>t\<close>, both ends included.\<close>

definition in_window :: "real \<Rightarrow> real \<Rightarrow> real \<Rightarrow> bool" where
  "in_window w t a \<longleftrightarrow> t - w \<le> a \<and> a \<le> t"

text \<open>The stored timestamps of a user, an absent entry read as the empty deque.\<close>

definition stored_requests :: "SlidingWindowRateLimiter \<Rightarrow> string \<Rightarrow> real list" where
  "stored_requests self u = (case user_requests self u of None \<Rightarrow> [] | Some q \<Rightarrow> q)"

text \<open>The answers given to user \<open>u\<close>, in call order.\<close>

definition results_for :: "string \<Rightarrow> (string \<times> real) list \<Rightarrow> bool list \<Rightarrow> bool list" where
  "results_for u calls rs = map snd (filter (\<lambda>(c, r). fst c = u) (zip calls rs))"

text \<open>
  Two limiter objects agree for user \<open>a\<close> when they hold the same entry for \<open>a\<close> and
  the same construction parameters; the entries of other users may differ.
\<close>

definition sw_same_for ::
  "string \<Rightarrow> SlidingWindowRateLimiter \<Rightarrow> SlidingWindowRateLimiter \<Rightarrow> bool" where
  "sw_same_for a s s' \<longleftrightarrow> user_requests s a = user_requests s' a \<and>
      max_requests s = max_requests s' \<and> time_window s = time_window s'"

definition tb_same_for ::
  "string \<Rightarrow> TokenBucketRateLimiter \<Rightarrow> TokenBucketRateLimiter \<Rightarrow> bool" where
  "tb_same_for a s s' \<longleftrightarrow> buckets s a = buckets s' a \<and>
      capacity s = capacity s' \<and> refill_rate s = refill_rate s'"


subsection \<open>Invariants used in the proofs\<close>

text \<open>
  For the sliding window: the admitted timestamps of \<open>u\<close> are the stored deque preceded
  by entries that some earlier call already found older than its cutoff, and no closed
  window of length \<open>time_window\<close> holds more than \<open>max_requests\<close> of them.
\<close>

definition window_inv ::
  "SlidingWindowRateLimiter \<Rightarrow> (string \<times> real) list \<Rightarrow> bool list \<Rightarrow> string \<Rightarrow> bool" where
  "window_inv s calls rs u \<longleftrightarrow>
     (\<exists>d. admitted u calls rs = d @ stored_requests s u \<and>
          (\<forall>x\<in>set d. \<exists>c\<in>set calls. x < snd c - time_window s)) \<and>
     (\<forall>t. int (length (filter (in_window (time_window s) t) (admitted u calls rs)))
            \<le> max_requests s)"

text \<open>No stored deque is longer than \<open>max_requests\<close> (than 0 when that is negative).\<close>

definition length_ok :: "SlidingWindowRateLimiter \<Rightarrow> bool" where
  "length_ok s \<longleftrightarrow>
     (\<forall>u q. user_requests s u = Some q \<longrightarrow> int (length q) \<le> max 0 (max_requests s))"

text \<open>
  For the token bucket: every bucket holds between 0 and \<open>capacity\<close> tokens and was last
  refilled no later than \<open>T\<close>.
\<close>

definition bucket_ok :: "TokenBucketRateLimiter \<Rightarrow> real \<Rightarrow> bool" where
  "bucket_ok s T \<longleftrightarrow>
     (\<forall>u b. buckets s u = Some b \<longrightarrow>
        0 \<le> tokens b \<and> tokens b \<le> of_int (capacity s) \<and> last_refill b \<le> T)"

text \<open>Every bucket of \<open>s\<close> is still there in \<open>s'\<close>, with a refill time that is not earlier.\<close>

definition refill_mono :: "TokenBucketRateLimiter \<Rightarrow> TokenBucketRateLimiter \<Rightarrow> bool" where
  "refill_mono s s' \<longleftrightarrow>
     (\<forall>u b. buckets s u = Some b \<longrightarrow>
        (\<exists>b'. buckets s' u = Some b' \<and> last_refill b \<le> last_refill b'))"

text \<open>Every bucket holds at most \<open>capacity\<close> tokens.\<close>

definition below_capacity :: "TokenBucketRateLimiter \<Rightarrow> bool" where
  "below_capacity s \<longleftrightarrow>
     (\<forall>u b. buckets s u = Some b \<longrightarrow> tokens b \<le> of_int (capacity s))"

text \<open>Every bucket was last refilled no later than \<open>T\<close>.\<close>

definition refilled_by :: "TokenBucketRateLimiter \<Rightarrow> real \<Rightarrow> bool" where
  "refilled_by s T \<longleftrightarrow> (\<forall>u b. buckets s u = Some b \<longrightarrow> last_refill b \<le> T)"

section \<open>Facts about running calls\<close>

lemma run_calls_Cons:
  "fst (run_calls step s ((u, t) # calls)) =
     fst (step s u t) # fst (run_calls step (snd (step s u t)) calls)"
  "snd (run_calls step s ((u, t) # calls)) = snd (run_calls step (snd (step s u t)) calls)"
  by (simp_all add: split_beta)

lemma run_calls_snoc:
  "fst (run_calls step s (calls @ [(u, t)])) =
     fst (run_calls step s calls) @ [fst (step (snd (run_calls step s calls)) u t)]"
  "snd (run_calls step s (calls @ [(u, t)])) = snd (step (snd (run_calls step s calls)) u t)"
proof (induction calls arbitrary: s)
  case Nil
  { case 1 show ?case by (simp add: split_beta) }
  { case 2 show ?case by (simp add: split_beta) }
next
  case (Cons c calls)
  { case 1 show ?case using Cons(1) by (cases c) (simp add: split_beta) }
  { case 2 show ?case using Cons(2) by (cases c) (simp add: split_beta) }
qed

lemma run_calls_append:
  "snd (run_calls step s (xs @ ys)) = snd (run_calls step (snd (run_calls step s xs)) ys)"
proof (induction xs arbitrary: s)
  case Nil
  show ?case by simp
next
  case (Cons c xs)
  then show ?case by (cases c) (simp add: split_beta)
qed

lemma length_run_calls: "length (fst (run_calls step s calls)) = length calls"
proof (induction calls arbitrary: s)
  case Nil
  show ?case by simp
next
  case (Cons c calls)
  then show ?case by (cases c) (simp add: split_beta)
qed

lemma run_calls_take_Suc:
  assumes "n < length calls"
  shows "fst (run_calls step s calls) ! n =
     fst (step (snd (run_calls step s (take n calls))) (fst (calls ! n)) (snd (calls ! n)))"
    and "snd (run_calls step s (take (Suc n) calls)) =
     snd (step (snd (run_calls step s (take n calls))) (fst (calls ! n)) (snd (calls ! n)))"
proof -
  have tk: "take (Suc n) calls = take n calls @ [(fst (calls ! n), snd (calls ! n))]"
    using assms by (simp add: take_Suc_conv_app_nth)
  show "snd (run_calls step s (take (Suc n) calls)) =
     snd (step (snd (run_calls step s (take n calls))) (fst (calls ! n)) (snd (calls ! n)))"
    unfolding tk by (rule run_calls_snoc)
  have pre: "fst (run_calls step s (xs @ ys)) ! k = fst (run_calls step s xs) ! k"
    if "k < length xs" for xs ys :: "(string \<times> real) list" and k
    using that
  proof (induction xs arbitrary: s k)
    case Nil
    then show ?case by simp
  next
    case (Cons c xs)
    obtain v t where c: "c = (v, t)" by (cases c)
    show ?case using Cons by (cases k) (simp_all add: c split_beta)
  qed
  have "fst (run_calls step s calls) ! n = fst (run_calls step s (take (Suc n) calls)) ! n"
    using pre[of n "take (Suc n) calls" "drop (Suc n) calls"] assms by simp
  also have "\<dots> =
      fst (step (snd (run_calls step s (take n calls))) (fst (calls ! n)) (snd (calls ! n)))"
    unfolding tk run_calls_snoc(1) using assms by (simp add: nth_append length_run_calls)
  finally show "fst (run_calls step s calls) ! n =
     fst (step (snd (run_calls step s (take n calls))) (fst (calls ! n)) (snd (calls ! n)))" .
qed

lemma admitted_snoc:
  "length rs = length calls \<Longrightarrow>
   admitted u (calls @ [(v, t)]) (rs @ [r]) =
     admitted u calls rs @ (if r \<and> v = u then [t] else [])"
  by (simp add: admitted_def)

section \<open>Facts about the sliding window\<close>

lemma popleft_expired_dropWhile: "popleft_expired c xs = dropWhile (\<lambda>x. x < c) xs"
  by (induction xs) auto

lemma popleft_expired_split:
  "\<exists>d. xs = d @ popleft_expired c xs \<and> (\<forall>x\<in>set d. x < c)"
proof (induction xs)
  case Nil
  show ?case by simp
next
  case (Cons a xs)
  then obtain d where d: "xs = d @ popleft_expired c xs" "\<forall>x\<in>set d. x < c" by blast
  show ?case
  proof (cases "a < c")
    case True
    with d have "a # xs = (a # d) @ popleft_expired c (a # xs) \<and> (\<forall>x\<in>set (a # d). x < c)"
      by simp
    then show ?thesis by blast
  next
    case False
    then have "a # xs = [] @ popleft_expired c (a # xs) \<and> (\<forall>x\<in>set []. x < c)" by simp
    then show ?thesis by blast
  qed
qed

lemma length_popleft_expired: "length (popleft_expired c xs) \<le> length xs"
  by (induction xs) auto

lemma popleft_expired_same_length:
  "length (popleft_expired c xs) = length xs \<Longrightarrow> popleft_expired c xs = xs"
proof (induction xs)
  case Nil
  show ?case by simp
next
  case (Cons a xs)
  show ?case
  proof (cases "a < c")
    case True
    with Cons.prems have "length (popleft_expired c xs) = Suc (length xs)" by simp
    with length_popleft_expired[of c xs] show ?thesis by simp
  next
    case False
    then show ?thesis by simp
  qed
qed

lemma SlidingWindow_config:
  "max_requests (snd (SlidingWindow_allow_requests s u t)) = max_requests s"
  "time_window (snd (SlidingWindow_allow_requests s u t)) = time_window s"
  by (simp_all add: SlidingWindow_allow_requests_def Let_def)

lemma SlidingWindow_run_config:
  "max_requests (snd (run_calls SlidingWindow_allow_requests s calls)) = max_requests s"
  "time_window (snd (run_calls SlidingWindow_allow_requests s calls)) = time_window s"
  by (induction calls rule: rev_induct) (auto simp: run_calls_snoc SlidingWindow_config)

lemma SlidingWindow_other:
  "v \<noteq> u \<Longrightarrow> user_requests (snd (SlidingWindow_allow_requests s v t)) u = user_requests s u"
  by (simp add: SlidingWindow_allow_requests_def Let_def)

lemma SlidingWindow_same:
  "stored_requests (snd (SlidingWindow_allow_requests s u t)) u =
     popleft_expired (t - time_window s) (stored_requests s u) @
       (if fst (SlidingWindow_allow_requests s u t) then [t] else [])"
  by (simp add: SlidingWindow_allow_requests_def Let_def stored_requests_def)

lemma SlidingWindow_result:
  "fst (SlidingWindow_allow_requests s u t) \<longleftrightarrow>
     int (length (popleft_expired (t - time_window s) (stored_requests s u))) < max_requests s"
  by (simp add: SlidingWindow_allow_requests_def Let_def stored_requests_def)

text \<open>
  One call keeps the window invariant, provided its clock reading is not earlier than
  those of the calls before it.
\<close>

lemma window_inv_step:
  assumes inv: "window_inv s calls rs u"
    and len: "length rs = length calls"
    and le: "\<forall>c\<in>set calls. snd c \<le> t"
  shows "window_inv (snd (SlidingWindow_allow_requests s v t)) (calls @ [(v, t)])
           (rs @ [fst (SlidingWindow_allow_requests s v t)]) u"
proof (cases "v = u")
  case False
  then have "stored_requests (snd (SlidingWindow_allow_requests s v t)) u = stored_requests s u"
    by (simp add: stored_requests_def SlidingWindow_other)
  moreover have "admitted u (calls @ [(v, t)]) (rs @ [fst (SlidingWindow_allow_requests s v t)])
      = admitted u calls rs"
    using False len by (simp add: admitted_snoc)
  ultimately show ?thesis
    using inv unfolding window_inv_def SlidingWindow_config by auto
next
  case True
  let ?W = "time_window s"
  let ?r = "fst (SlidingWindow_allow_requests s u t)"
  let ?s' = "snd (SlidingWindow_allow_requests s u t)"
  let ?A = "admitted u calls rs"
  let ?q = "popleft_expired (t - ?W) (stored_requests s u)"
  from inv obtain d where d: "?A = d @ stored_requests s u"
    "\<forall>x\<in>set d. \<exists>c\<in>set calls. x < snd c - ?W"
    and bound: "\<And>t'. int (length (filter (in_window ?W t') ?A)) \<le> max_requests s"
    unfolding window_inv_def by blast
  obtain d2 where d2: "stored_requests s u = d2 @ ?q" "\<forall>x\<in>set d2. x < t - ?W"
    using popleft_expired_split by blast
  have Aq: "?A = (d @ d2) @ ?q"
    using d(1) d2(1) by (metis append_assoc)
  have old: "\<forall>x\<in>set (d @ d2). x < t - ?W"
  proof
    fix x assume "x \<in> set (d @ d2)"
    then consider "x \<in> set d" | "x \<in> set d2" by auto
    then show "x < t - ?W"
    proof cases
      case 1
      then obtain c where "c \<in> set calls" "x < snd c - ?W" using d(2) by blast
      with le show ?thesis by fastforce
    next
      case 2
      with d2(2) show ?thesis by blast
    qed
  qed
  have A': "admitted u (calls @ [(u, t)]) (rs @ [?r]) = ?A @ (if ?r then [t] else [])"
    using len by (simp add: admitted_snoc)
  have st': "stored_requests ?s' u = ?q @ (if ?r then [t] else [])"
    by (rule SlidingWindow_same)
  have part1: "\<exists>d'. admitted u (calls @ [(u, t)]) (rs @ [?r]) = d' @ stored_requests ?s' u \<and>
          (\<forall>x\<in>set d'. \<exists>c\<in>set (calls @ [(u, t)]). x < snd c - ?W)"
  proof (intro exI conjI)
    show "admitted u (calls @ [(u, t)]) (rs @ [?r]) = (d @ d2) @ stored_requests ?s' u"
      unfolding A' st' Aq by simp
    show "\<forall>x\<in>set (d @ d2). \<exists>c\<in>set (calls @ [(u, t)]). x < snd c - ?W"
      using old by auto
  qed
  have part2: "int (length (filter (in_window ?W t') (admitted u (calls @ [(u, t)]) (rs @ [?r]))))
      \<le> max_requests s" for t'
  proof (cases "?r \<and> in_window ?W t' t")
    case False
    then have "filter (in_window ?W t') (admitted u (calls @ [(u, t)]) (rs @ [?r]))
        = filter (in_window ?W t') ?A"
      using A' by auto
    then show ?thesis using bound by simp
  next
    case yes: True
    then have tt: "t \<le> t'" by (simp add: in_window_def)
    have "\<not> in_window ?W t' x" if "x \<in> set (d @ d2)" for x
    proof -
      from old that have "x < t - ?W" by blast
      with tt show ?thesis by (simp add: in_window_def)
    qed
    then have "filter (in_window ?W t') (d @ d2) = []"
      unfolding filter_empty_conv by blast
    then have "filter (in_window ?W t') ?A = filter (in_window ?W t') ?q"
      by (subst Aq, subst filter_append) simp
    then have "length (filter (in_window ?W t') ?A) \<le> length ?q"
      by simp
    moreover have "int (length ?q) < max_requests s"
      using yes by (simp add: SlidingWindow_result)
    ultimately show ?thesis using A' yes by simp
  qed
  show ?thesis
    unfolding window_inv_def SlidingWindow_config True using part1 part2 by blast
qed

lemma window_inv_run:
  assumes "sorted (map snd calls)" and "0 \<le> m"
  shows "window_inv
           (snd (run_calls SlidingWindow_allow_requests (SlidingWindowRateLimiter_init m w) calls))
           calls
           (fst (run_calls SlidingWindow_allow_requests (SlidingWindowRateLimiter_init m w) calls))
           u"
  using assms(1)
proof (induction calls rule: rev_induct)
  case Nil
  show ?case using assms(2)
    by (simp add: window_inv_def admitted_def stored_requests_def SlidingWindowRateLimiter_init_def)
next
  case (snoc c calls)
  obtain v t where c: "c = (v, t)" by (cases c)
  from snoc.prems have srt: "sorted (map snd calls)" and le: "\<forall>c\<in>set calls. snd c \<le> t"
    by (auto simp: c sorted_append)
  let ?run = "run_calls SlidingWindow_allow_requests (SlidingWindowRateLimiter_init m w) calls"
  have "window_inv (snd ?run) calls (fst ?run) u" using snoc.IH srt by simp
  then have "window_inv (snd (SlidingWindow_allow_requests (snd ?run) v t)) (calls @ [(v, t)])
           (fst ?run @ [fst (SlidingWindow_allow_requests (snd ?run) v t)]) u"
    using le by (intro window_inv_step) (simp_all add: length_run_calls)
  then show ?case
    by (simp add: c run_calls_snoc)
qed

text \<open>The length invariant, and what it gives on a denial: nothing was trimmed.\<close>

lemma length_ok_step:
  assumes "length_ok s"
  shows "length_ok (snd (SlidingWindow_allow_requests s u t))"
proof -
  let ?q = "popleft_expired (t - time_window s)
      (case user_requests s u of None \<Rightarrow> [] | Some q \<Rightarrow> q)"
  have "int (length ?q) \<le> max 0 (max_requests s)"
  proof (cases "user_requests s u")
    case None
    then show ?thesis by simp
  next
    case (Some q)
    with assms have "int (length q) \<le> max 0 (max_requests s)"
      by (simp add: length_ok_def)
    moreover have "length (popleft_expired (t - time_window s) q) \<le> length q"
      by (rule length_popleft_expired)
    ultimately show ?thesis using Some by simp
  qed
  then show ?thesis
    using assms by (auto simp: length_ok_def SlidingWindow_allow_requests_def Let_def)
qed

lemma length_ok_run:
  "length_ok s \<Longrightarrow> length_ok (snd (run_calls SlidingWindow_allow_requests s calls))"
  by (induction calls rule: rev_induct) (auto simp: run_calls_snoc length_ok_step)

lemma length_ok_init: "length_ok (SlidingWindowRateLimiter_init m w)"
  by (simp add: length_ok_def SlidingWindowRateLimiter_init_def)

lemma denial_no_trim:
  assumes ok: "length_ok s" and deny: "\<not> fst (SlidingWindow_allow_requests s u t)"
  shows "popleft_expired (t - time_window s) (stored_requests s u) = stored_requests s u"
proof -
  let ?st = "stored_requests s u"
  let ?q = "popleft_expired (t - time_window s) ?st"
  have a: "max_requests s \<le> int (length ?q)"
    using deny by (simp add: SlidingWindow_result)
  have b: "int (length ?st) \<le> max 0 (max_requests s)"
    using ok by (cases "user_requests s u") (auto simp: length_ok_def stored_requests_def)
  have c: "length ?q \<le> length ?st" by (rule length_popleft_expired)
  from a b c have "length ?q = length ?st" by linarith
  then show ?thesis by (rule popleft_expired_same_length)
qed

section \<open>Facts about the token bucket\<close>

lemma TokenBucket_config:
  "capacity (snd (TokenBucket_allow_requests s u t)) = capacity s"
  "refill_rate (snd (TokenBucket_allow_requests s u t)) = refill_rate s"
  by (simp_all add: TokenBucket_allow_requests_def Let_def)

lemma TokenBucket_run_config:
  "capacity (snd (run_calls TokenBucket_allow_requests s calls)) = capacity s"
  "refill_rate (snd (run_calls TokenBucket_allow_requests s calls)) = refill_rate s"
  by (induction calls rule: rev_induct) (auto simp: run_calls_snoc TokenBucket_config)

lemma TokenBucket_other:
  "v \<noteq> u \<Longrightarrow> buckets (snd (TokenBucket_allow_requests s v t)) u = buckets s u"
  by (simp add: TokenBucket_allow_requests_def Let_def)

lemma TokenBucket_same:
  "buckets (snd (TokenBucket_allow_requests s u t)) u =
     Some (let b = refill s (get_bucket s u t) t
           in if 1 \<le> tokens b then b\<lparr>tokens := tokens b - 1\<rparr> else b)"
  by (simp add: TokenBucket_allow_requests_def Let_def)

lemma refill_bounds:
  assumes "0 \<le> tokens b" "last_refill b \<le> now" "0 \<le> capacity s" "0 \<le> refill_rate s"
  shows "0 \<le> tokens (refill s b now)" and "tokens (refill s b now) \<le> of_int (capacity s)"
    and "last_refill (refill s b now) = now"
proof -
  have "0 \<le> (now - last_refill b) * refill_rate s"
    using assms by (intro mult_nonneg_nonneg) simp_all
  with assms show "0 \<le> tokens (refill s b now)"
    by (simp add: refill_def Let_def)
  show "tokens (refill s b now) \<le> of_int (capacity s)"
    by (simp add: refill_def Let_def)
  show "last_refill (refill s b now) = now"
    by (simp add: refill_def Let_def)
qed

lemma bucket_ok_step:
  assumes ok: "bucket_ok s T" and le: "T \<le> now"
    and c: "0 \<le> capacity s" and r: "0 \<le> refill_rate s"
  shows "bucket_ok (snd (TokenBucket_allow_requests s u now)) now"
    and "refill_mono s (snd (TokenBucket_allow_requests s u now))"
proof -
  let ?s' = "snd (TokenBucket_allow_requests s u now)"
  let ?g = "get_bucket s u now"
  let ?b = "refill s ?g now"
  have g: "0 \<le> tokens ?g \<and> last_refill ?g \<le> now"
  proof (cases "buckets s u")
    case None
    then show ?thesis using c by (simp add: get_bucket_def)
  next
    case (Some b)
    with ok have "0 \<le> tokens b" "last_refill b \<le> T" by (auto simp: bucket_ok_def)
    with le Some show ?thesis by (simp add: get_bucket_def)
  qed
  then have b: "0 \<le> tokens ?b" "tokens ?b \<le> of_int (capacity s)" "last_refill ?b = now"
    using c r by (simp_all add: refill_bounds)
  show "bucket_ok ?s' now"
    unfolding bucket_ok_def
  proof (intro allI impI)
    fix v b' assume v: "buckets ?s' v = Some b'"
    show "0 \<le> tokens b' \<and> tokens b' \<le> of_int (capacity ?s') \<and> last_refill b' \<le> now"
    proof (cases "v = u")
      case True
      with v have "b' = (if 1 \<le> tokens ?b then ?b\<lparr>tokens := tokens ?b - 1\<rparr> else ?b)"
        by (simp add: TokenBucket_same Let_def)
      with b show ?thesis by (simp add: TokenBucket_config)
    next
      case False
      with v have "buckets s v = Some b'" by (simp add: TokenBucket_other)
      with ok have "0 \<le> tokens b'" "tokens b' \<le> of_int (capacity s)" "last_refill b' \<le> T"
        by (auto simp: bucket_ok_def)
      with le show ?thesis by (simp add: TokenBucket_config)
    qed
  qed
  show "refill_mono s ?s'"
    unfolding refill_mono_def
  proof (intro allI impI)
    fix v b0 assume v: "buckets s v = Some b0"
    show "\<exists>b'. buckets ?s' v = Some b' \<and> last_refill b0 \<le> last_refill b'"
    proof (cases "v = u")
      case True
      from v ok have "last_refill b0 \<le> T" by (auto simp: bucket_ok_def)
      with le have "last_refill b0 \<le> now" by simp
      with b(3) show ?thesis by (simp add: True TokenBucket_same Let_def)
    next
      case False
      with v show ?thesis by (simp add: TokenBucket_other)
    qed
  qed
qed

lemma refill_mono_refl: "refill_mono s s"
  by (simp add: refill_mono_def)

lemma refill_mono_trans: "refill_mono s1 s2 \<Longrightarrow> refill_mono s2 s3 \<Longrightarrow> refill_mono s1 s3"
  unfolding refill_mono_def by (meson order_trans)

lemma bucket_ok_run:
  assumes "bucket_ok s T" "sorted (T # map snd calls)" "0 \<le> capacity s" "0 \<le> refill_rate s"
  shows "bucket_ok (snd (run_calls TokenBucket_allow_requests s calls)) (last (T # map snd calls))
       \<and> refill_mono s (snd (run_calls TokenBucket_allow_requests s calls))"
  using assms
proof (induction calls arbitrary: s T)
  case Nil
  then show ?case by (simp add: refill_mono_refl)
next
  case (Cons c calls)
  obtain u t where c: "c = (u, t)" by (cases c)
  let ?s1 = "snd (TokenBucket_allow_requests s u t)"
  from Cons.prems(2) have le: "T \<le> t" and srt: "sorted (t # map snd calls)"
    by (simp_all add: c)
  have ok1: "bucket_ok ?s1 t" and m1: "refill_mono s ?s1"
    using Cons.prems(1) le Cons.prems(3,4) by (rule bucket_ok_step)+
  have "bucket_ok (snd (run_calls TokenBucket_allow_requests ?s1 calls)) (last (t # map snd calls))
       \<and> refill_mono ?s1 (snd (run_calls TokenBucket_allow_requests ?s1 calls))"
    using ok1 srt Cons.prems(3,4) by (intro Cons.IH) (simp_all add: TokenBucket_config)
  with m1 show ?case
    by (auto simp: c run_calls_Cons simp del: run_calls.simps intro: refill_mono_trans)
qed

lemma sorted_last_append:
  fixes xs :: "real list"
  assumes "sorted (xs @ ys)" "xs \<noteq> []"
  shows "sorted (last xs # ys)"
  using assms by (simp add: sorted_append)

text \<open>
  The upper bound on the tokens needs nothing of the clock or of the parameters; the
  order of the refill times needs only clock readings that do not decrease.
\<close>

lemma refill_le_capacity: "tokens (refill s b now) \<le> of_int (capacity s)"
  by (simp add: refill_def Let_def)

lemma below_capacity_step:
  assumes "below_capacity s"
  shows "below_capacity (snd (TokenBucket_allow_requests s u now))"
  unfolding below_capacity_def
proof (intro allI impI)
  fix v b' assume v: "buckets (snd (TokenBucket_allow_requests s u now)) v = Some b'"
  let ?b = "refill s (get_bucket s u now) now"
  show "tokens b' \<le> of_int (capacity (snd (TokenBucket_allow_requests s u now)))"
  proof (cases "v = u")
    case True
    with v have "b' = (if 1 \<le> tokens ?b then ?b\<lparr>tokens := tokens ?b - 1\<rparr> else ?b)"
      by (simp add: TokenBucket_same Let_def)
    moreover have "tokens ?b \<le> of_int (capacity s)" by (rule refill_le_capacity)
    ultimately show ?thesis by (simp add: TokenBucket_config)
  next
    case False
    with v have "buckets s v = Some b'" by (simp add: TokenBucket_other)
    with assms show ?thesis by (simp add: below_capacity_def TokenBucket_config)
  qed
qed

lemma below_capacity_run:
  "below_capacity s \<Longrightarrow> below_capacity (snd (run_calls TokenBucket_allow_requests s calls))"
  by (induction calls rule: rev_induct) (auto simp: run_calls_snoc below_capacity_step)

lemma below_capacity_init: "below_capacity (TokenBucketRateLimiter_init c r)"
  by (simp add: below_capacity_def TokenBucketRateLimiter_init_def)

lemma refilled_by_step:
  assumes ok: "refilled_by s T" and le: "T \<le> now"
  shows "refilled_by (snd (TokenBucket_allow_requests s u now)) now"
    and "refill_mono s (snd (TokenBucket_allow_requests s u now))"
proof -
  let ?s' = "snd (TokenBucket_allow_requests s u now)"
  have new: "\<exists>b'. buckets ?s' u = Some b' \<and> last_refill b' = now"
    by (simp add: TokenBucket_same Let_def refill_def)
  show "refilled_by ?s' now"
    unfolding refilled_by_def
  proof (intro allI impI)
    fix v b' assume v: "buckets ?s' v = Some b'"
    show "last_refill b' \<le> now"
    proof (cases "v = u")
      case True
      with v new show ?thesis by auto
    next
      case False
      with v have "buckets s v = Some b'" by (simp add: TokenBucket_other)
      with ok have "last_refill b' \<le> T" by (simp add: refilled_by_def)
      with le show ?thesis by simp
    qed
  qed
  show "refill_mono s ?s'"
    unfolding refill_mono_def
  proof (intro allI impI)
    fix v b0 assume v: "buckets s v = Some b0"
    show "\<exists>b'. buckets ?s' v = Some b' \<and> last_refill b0 \<le> last_refill b'"
    proof (cases "v = u")
      case True
      from v ok have "last_refill b0 \<le> T" by (simp add: refilled_by_def)
      with le have "last_refill b0 \<le> now" by simp
      with new show ?thesis unfolding True by auto
    next
      case False
      with v show ?thesis by (simp add: TokenBucket_other)
    qed
  qed
qed

lemma refilled_by_run:
  assumes "refilled_by s T" "sorted (T # map snd calls)"
  shows "refilled_by (snd (run_calls TokenBucket_allow_requests s calls)) (last (T # map snd calls))
       \<and> refill_mono s (snd (run_calls TokenBucket_allow_requests s calls))"
  using assms
proof (induction calls arbitrary: s T)
  case Nil
  then show ?case by (simp add: refill_mono_refl)
next
  case (Cons c calls)
  obtain u t where c: "c = (u, t)" by (cases c)
  let ?s1 = "snd (TokenBucket_allow_requests s u t)"
  from Cons.prems(2) have le: "T \<le> t" and srt: "sorted (t # map snd calls)"
    by (simp_all add: c)
  have ok1: "refilled_by ?s1 t" and m1: "refill_mono s ?s1"
    using Cons.prems(1) le by (rule refilled_by_step)+
  have "refilled_by (snd (run_calls TokenBucket_allow_requests ?s1 calls)) (last (t # map snd calls))
       \<and> refill_mono ?s1 (snd (run_calls TokenBucket_allow_requests ?s1 calls))"
    using ok1 srt by (rule Cons.IH)
  with m1 show ?case
    by (auto simp: c run_calls_Cons simp del: run_calls.simps intro: refill_mono_trans)
qed

section \<open>Calls for other users\<close>

text \<open>
  A step function that answers a call for \<open>a\<close> from what an equivalence \<open>eqv\<close> preserves,
  and whose calls for other users stay within \<open>eqv\<close>, gives \<open>a\<close> the same answers whether
  or not the other calls are made.
\<close>

lemma isolation_generic:
  fixes step :: "'s \<Rightarrow> string \<Rightarrow> real \<Rightarrow> bool \<times> 's"
  assumes same: "\<And>s s' t. eqv s s' \<Longrightarrow>
        fst (step s a t) = fst (step s' a t) \<and> eqv (snd (step s a t)) (snd (step s' a t))"
    and other: "\<And>s s' b t. b \<noteq> a \<Longrightarrow> eqv s s' \<Longrightarrow> eqv (snd (step s b t)) s'"
    and start: "eqv s s'"
  shows "results_for a calls (fst (run_calls step s calls)) =
           fst (run_calls step s' (filter (\<lambda>c. fst c = a) calls))"
  using start
proof (induction calls arbitrary: s s')
  case Nil
  show ?case by (simp add: results_for_def)
next
  case (Cons c calls)
  obtain b t where c: "c = (b, t)" by (cases c)
  show ?case
  proof (cases "b = a")
    case True
    from same[OF Cons.prems, of t]
    have r: "fst (step s a t) = fst (step s' a t)"
      and e: "eqv (snd (step s a t)) (snd (step s' a t))" by simp_all
    from Cons.IH[OF e] show ?thesis
      by (simp add: c True results_for_def split_beta r)
  next
    case False
    from other[OF False Cons.prems, of t] have e: "eqv (snd (step s b t)) s'" .
    from Cons.IH[OF e] show ?thesis
      using False by (simp add: c results_for_def split_beta)
  qed
qed

lemma sw_isolation:
  "results_for a calls (fst (run_calls SlidingWindow_allow_requests s calls)) =
     fst (run_calls SlidingWindow_allow_requests s (filter (\<lambda>c. fst c = a) calls))"
proof (rule isolation_generic[where eqv = "sw_same_for a"])
  show "sw_same_for a s s" by (simp add: sw_same_for_def)
next
  fix s s' :: SlidingWindowRateLimiter and t
  assume "sw_same_for a s s'"
  then show "fst (SlidingWindow_allow_requests s a t) = fst (SlidingWindow_allow_requests s' a t) \<and>
       sw_same_for a (snd (SlidingWindow_allow_requests s a t)) (snd (SlidingWindow_allow_requests s' a t))"
    by (simp add: sw_same_for_def SlidingWindow_allow_requests_def Let_def)
next
  fix s s' :: SlidingWindowRateLimiter and b t
  assume "b \<noteq> a" "sw_same_for a s s'"
  then show "sw_same_for a (snd (SlidingWindow_allow_requests s b t)) s'"
    by (simp add: sw_same_for_def SlidingWindow_allow_requests_def Let_def)
qed

lemma tb_isolation:
  "results_for a calls (fst (run_calls TokenBucket_allow_requests s calls)) =
     fst (run_calls TokenBucket_allow_requests s (filter (\<lambda>c. fst c = a) calls))"
proof (rule isolation_generic[where eqv = "tb_same_for a"])
  show "tb_same_for a s s" by (simp add: tb_same_for_def)
next
  fix s s' :: TokenBucketRateLimiter and t
  assume e: "tb_same_for a s s'"
  have g: "refill s (get_bucket s a t) t = refill s' (get_bucket s' a t) t"
    using e by (cases "buckets s' a") (simp_all add: tb_same_for_def get_bucket_def refill_def)
  show "fst (TokenBucket_allow_requests s a t) = fst (TokenBucket_allow_requests s' a t) \<and>
       tb_same_for a (snd (TokenBucket_allow_requests s a t)) (snd (TokenBucket_allow_requests s' a t))"
    using e by (simp add: tb_same_for_def TokenBucket_allow_requests_def Let_def g)
next
  fix s s' :: TokenBucketRateLimiter and b t
  assume "b \<noteq> a" "tb_same_for a s s'"
  then show "tb_same_for a (snd (TokenBucket_allow_requests s b t)) s'"
    by (simp add: tb_same_for_def TokenBucket_allow_requests_def Let_def)
qed

section \<open>The claims\<close>

subsection \<open>Sliding window\<close>

text \<open>
  C1. Sliding-window boundedness. A fresh limiter with \<open>max_requests = m\<close> (not negative)
  and \<open>time_window = w\<close> receives any sequence of calls, for any users, whose clock
  readings do not decrease. Then for every user \<open>u\<close> and every instant \<open>t\<close>, the admitted
  calls of \<open>u\<close> with a timestamp in the trailing window \<open>[t - w, t]\<close> number at most \<open>m\<close>;
  and after every call that was answered \<open>True\<close>, the deque stored for its user has at
  most \<open>m\<close> entries.
\<close>

theorem sliding_window_bounded:
  assumes "sorted (map snd calls)" and "0 \<le> m"
  shows "(\<forall>u t. int (length (filter (in_window w t)
            (admitted u calls (fst (run_calls SlidingWindow_allow_requests
               (SlidingWindowRateLimiter_init m w) calls))))) \<le> m)
       \<and> (\<forall>n<length calls.
            fst (run_calls SlidingWindow_allow_requests
                   (SlidingWindowRateLimiter_init m w) calls) ! n \<longrightarrow>
            int (length (stored_requests
              (snd (run_calls SlidingWindow_allow_requests (SlidingWindowRateLimiter_init m w)
                 (take (Suc n) calls))) (fst (calls ! n)))) \<le> m)"
proof (intro conjI allI impI)
  fix u t
  let ?run = "run_calls SlidingWindow_allow_requests (SlidingWindowRateLimiter_init m w) calls"
  have "window_inv (snd ?run) calls (fst ?run) u" using assms by (rule window_inv_run)
  moreover have "max_requests (snd ?run) = m" "time_window (snd ?run) = w"
    by (simp_all add: SlidingWindow_run_config SlidingWindowRateLimiter_init_def)
  ultimately show "int (length (filter (in_window w t) (admitted u calls (fst ?run)))) \<le> m"
    by (simp add: window_inv_def)
next
  fix n assume n: "n < length calls"
    and adm: "fst (run_calls SlidingWindow_allow_requests
                (SlidingWindowRateLimiter_init m w) calls) ! n"
  let ?s = "snd (run_calls SlidingWindow_allow_requests (SlidingWindowRateLimiter_init m w)
      (take n calls))"
  let ?u = "fst (calls ! n)" and ?t = "snd (calls ! n)"
  have r: "fst (SlidingWindow_allow_requests ?s ?u ?t)"
    using run_calls_take_Suc(1)[OF n, of SlidingWindow_allow_requests] adm by simp
  have s': "snd (run_calls SlidingWindow_allow_requests (SlidingWindowRateLimiter_init m w)
                 (take (Suc n) calls)) = snd (SlidingWindow_allow_requests ?s ?u ?t)"
    using run_calls_take_Suc(2)[OF n, of SlidingWindow_allow_requests] by simp
  have "max_requests ?s = m"
    by (simp add: SlidingWindow_run_config SlidingWindowRateLimiter_init_def)
  then show "int (length (stored_requests
              (snd (run_calls SlidingWindow_allow_requests (SlidingWindowRateLimiter_init m w)
                 (take (Suc n) calls))) (fst (calls ! n)))) \<le> m"
    using r unfolding s' SlidingWindow_same by (simp add: SlidingWindow_result)
qed

text \<open>
  The theorem at a limiter of two requests per ten seconds and four calls by two users:
  the third call of \<open>u\<close> is denied, and after the second one its deque has two entries.
\<close>

theorem sliding_window_bounded_witness:
  "sorted (map snd [(''u'', 0::real), (''u'', 1), (''v'', 1), (''u'', 2)])
   \<and> (0::int) \<le> 2
   \<and> (\<forall>u t. int (length (filter (in_window 10 t)
            (admitted u [(''u'', 0), (''u'', 1), (''v'', 1), (''u'', 2)]
               (fst (run_calls SlidingWindow_allow_requests (SlidingWindowRateLimiter_init 2 10)
                  [(''u'', 0), (''u'', 1), (''v'', 1), (''u'', 2)]))))) \<le> 2)
   \<and> fst (run_calls SlidingWindow_allow_requests (SlidingWindowRateLimiter_init 2 10)
         [(''u'', 0), (''u'', 1), (''v'', 1), (''u'', 2)]) = [True, True, True, False]
   \<and> int (length (stored_requests
         (snd (run_calls SlidingWindow_allow_requests (SlidingWindowRateLimiter_init 2 10)
            (take (Suc 1) [(''u'', 0), (''u'', 1), (''v'', 1), (''u'', 2)]))) ''u'')) \<le> 2"
proof -
  let ?calls = "[(''u'', 0::real), (''u'', 1), (''v'', 1), (''u'', 2)]"
  have h1: "sorted (map snd ?calls)" by simp
  have h2: "(0::int) \<le> 2" by simp
  note T = sliding_window_bounded[OF h1 h2, of 10]
  have rs: "fst (run_calls SlidingWindow_allow_requests (SlidingWindowRateLimiter_init 2 10) ?calls)
      = [True, True, True, False]"
    by (simp add: SlidingWindow_allow_requests_def SlidingWindowRateLimiter_init_def Let_def)
  from T have a: "\<forall>u t. int (length (filter (in_window 10 t)
            (admitted u ?calls (fst (run_calls SlidingWindow_allow_requests
               (SlidingWindowRateLimiter_init 2 10) ?calls))))) \<le> 2"
    by (rule conjunct1)
  from T have "\<forall>n<length ?calls.
            fst (run_calls SlidingWindow_allow_requests
                   (SlidingWindowRateLimiter_init 2 10) ?calls) ! n \<longrightarrow>
            int (length (stored_requests
              (snd (run_calls SlidingWindow_allow_requests (SlidingWindowRateLimiter_init 2 10)
                 (take (Suc n) ?calls))) (fst (?calls ! n)))) \<le> 2"
    by (rule conjunct2)
  then have b: "int (length (stored_requests
         (snd (run_calls SlidingWindow_allow_requests (SlidingWindowRateLimiter_init 2 10)
            (take (Suc 1) ?calls))) ''u'')) \<le> 2"
    using rs by (simp add: SlidingWindow_allow_requests_def SlidingWindowRateLimiter_init_def
        Let_def stored_requests_def)
  from h1 h2 a rs b show ?thesis by blast
qed

text \<open>
  C3, as the code has it. With \<open>cutoff = now - time_window\<close>, a call leaves for its user
  the trimmed deque, followed by \<open>now\<close> when it admits. Trimming removes the longest
  prefix of timestamps strictly below the cutoff and nothing else: the first entry that
  stays is at or above the cutoff, a timestamp equal to the cutoff stays, and when the
  deque is in chronological order every entry that stays is at or above the cutoff.
\<close>

theorem sliding_window_trim:
  "stored_requests (snd (SlidingWindow_allow_requests s u t)) u =
       popleft_expired (t - time_window s) (stored_requests s u) @
         (if fst (SlidingWindow_allow_requests s u t) then [t] else [])
   \<and> popleft_expired cutoff xs = dropWhile (\<lambda>x. x < cutoff) xs
   \<and> (\<exists>dropped. xs = dropped @ popleft_expired cutoff xs \<and> (\<forall>x\<in>set dropped. x < cutoff))
   \<and> (case popleft_expired cutoff xs of [] \<Rightarrow> True | x # _ \<Rightarrow> cutoff \<le> x)
   \<and> popleft_expired cutoff (cutoff # xs) = cutoff # xs
   \<and> (sorted xs \<longrightarrow> (\<forall>x\<in>set (popleft_expired cutoff xs). cutoff \<le> x))"
proof -
  have hd: "case popleft_expired cutoff xs of [] \<Rightarrow> True | x # _ \<Rightarrow> cutoff \<le> x"
    by (induction xs) auto
  have all: "\<forall>x\<in>set (popleft_expired cutoff xs). cutoff \<le> x" if "sorted xs"
    using that by (induction xs) auto
  have tie: "popleft_expired cutoff (cutoff # xs) = cutoff # xs"
    by simp
  show ?thesis
    using SlidingWindow_same popleft_expired_dropWhile popleft_expired_split hd all tie
    by blast
qed

text \<open>The theorem at the deque 1, 5, 7 and the cutoff 5: only 1 is removed.\<close>

theorem sliding_window_trim_witness:
  "sorted [1, 5, 7 :: real]
   \<and> popleft_expired 5 [1, 5, 7] = [5, 7]
   \<and> list_all (\<lambda>x. 5 \<le> x) (popleft_expired 5 [1, 5, 7])"
proof -
  have h: "sorted [1, 5, 7 :: real]" by simp
  from sliding_window_trim[of _ _ _ 5 "[1, 5, 7]"] h
  have "\<forall>x\<in>set (popleft_expired 5 [1, 5, 7]). 5 \<le> x" by blast
  then have "list_all (\<lambda>x. 5 \<le> x) (popleft_expired 5 [1, 5, 7])"
    unfolding list_all_iff .
  moreover have "popleft_expired 5 [1, 5, 7] = [5, 7]" by simp
  ultimately show ?thesis using h by blast
qed

text \<open>
  C3 as stated fails. A limiter of one request per ten seconds admits a call at time 0;
  at time 10 the cutoff is 0, the stored timestamp 0 equals it and is kept, so the call is
  denied and the deque still holds a timestamp that is not above the cutoff.
\<close>

theorem sliding_window_trim_counterexample:
  "popleft_expired (10 - 10) [0] = [0]
   \<and> fst (run_calls SlidingWindow_allow_requests (SlidingWindowRateLimiter_init 1 10)
        [(''u'', 0), (''u'', 10)]) = [True, False]
   \<and> stored_requests (snd (run_calls SlidingWindow_allow_requests
        (SlidingWindowRateLimiter_init 1 10) [(''u'', 0), (''u'', 10)])) ''u'' = [0]
   \<and> \<not> (\<forall>x\<in>set (stored_requests (snd (run_calls SlidingWindow_allow_requests
        (SlidingWindowRateLimiter_init 1 10) [(''u'', 0), (''u'', 10)])) ''u''). x > 10 - 10)"
  by (simp add: SlidingWindow_allow_requests_def SlidingWindowRateLimiter_init_def Let_def
      stored_requests_def)

text \<open>
  C6. Sliding-window denial frame. In any state a fresh limiter can reach, by any calls
  at any clock readings, a call answered \<open>False\<close> leaves the timestamps stored for its
  user as they were (an absent entry read as the empty deque) and the entries of all
  other users untouched; when the user already had an entry, or \<open>max_requests\<close> is at
  least 1, the whole limiter object is unchanged.
\<close>

theorem sliding_window_denial_frame:
  assumes reach: "s = snd (run_calls SlidingWindow_allow_requests
                      (SlidingWindowRateLimiter_init m w) calls)"
    and deny: "SlidingWindow_allow_requests s u t = (False, s')"
  shows "stored_requests s' u = stored_requests s u
       \<and> (\<forall>v. v \<noteq> u \<longrightarrow> user_requests s' v = user_requests s v)
       \<and> (user_requests s u \<noteq> None \<longrightarrow> s' = s)
       \<and> (1 \<le> m \<longrightarrow> s' = s)"
proof -
  have ok: "length_ok s" unfolding reach by (intro length_ok_run length_ok_init)
  have m: "max_requests s = m"
    unfolding reach by (simp add: SlidingWindow_run_config SlidingWindowRateLimiter_init_def)
  from deny have r: "\<not> fst (SlidingWindow_allow_requests s u t)"
    and s': "s' = snd (SlidingWindow_allow_requests s u t)" by simp_all
  have same: "popleft_expired (t - time_window s) (stored_requests s u) = stored_requests s u"
    using ok r by (rule denial_no_trim)
  have 1: "stored_requests s' u = stored_requests s u"
    unfolding s' SlidingWindow_same using same r by simp
  have 2: "\<forall>v. v \<noteq> u \<longrightarrow> user_requests s' v = user_requests s v"
    unfolding s' by (simp add: SlidingWindow_other)
  have 3: "s' = s" if "user_requests s u \<noteq> None"
  proof -
    from that obtain q where q: "user_requests s u = Some q" by blast
    then have "popleft_expired (t - time_window s) q = q"
      using same by (simp add: stored_requests_def)
    moreover have "(user_requests s)(u \<mapsto> q) = user_requests s"
      using q by (simp add: map_upd_triv)
    moreover have "\<not> int (length q) < max_requests s"
      using r same q by (simp add: SlidingWindow_result stored_requests_def)
    ultimately show ?thesis
      using q unfolding s' by (simp add: SlidingWindow_allow_requests_def Let_def)
  qed
  have 4: "user_requests s u \<noteq> None" if "1 \<le> m"
  proof
    assume "user_requests s u = None"
    then have "fst (SlidingWindow_allow_requests s u t)"
      using that m by (simp add: SlidingWindow_result stored_requests_def)
    with r show False by simp
  qed
  from 1 2 3 4 show ?thesis by blast
qed

text \<open>
  The theorem at a limiter of one request per ten seconds that has admitted a call at
  time 0: the call at time 5 is denied and returns the same object.
\<close>

theorem sliding_window_denial_frame_witness:
  "\<lparr>max_requests = 1, time_window = 10, user_requests = [''u'' \<mapsto> [0]]\<rparr>
       = snd (run_calls SlidingWindow_allow_requests (SlidingWindowRateLimiter_init 1 10)
            [(''u'', 0)])
   \<and> SlidingWindow_allow_requests
        \<lparr>max_requests = 1, time_window = 10, user_requests = [''u'' \<mapsto> [0]]\<rparr> ''u'' 5
       = (False, \<lparr>max_requests = 1, time_window = 10, user_requests = [''u'' \<mapsto> [0]]\<rparr>)
   \<and> user_requests \<lparr>max_requests = 1, time_window = 10, user_requests = [''u'' \<mapsto> [0]]\<rparr> ''u''
       \<noteq> None
   \<and> (1::int) \<le> 1
   \<and> stored_requests \<lparr>max_requests = 1, time_window = 10, user_requests = [''u'' \<mapsto> [0]]\<rparr> ''u''
       = [0]"
proof -
  let ?s = "\<lparr>max_requests = 1, time_window = 10, user_requests = [''u'' \<mapsto> [0::real]]\<rparr>"
  have h1: "?s = snd (run_calls SlidingWindow_allow_requests (SlidingWindowRateLimiter_init 1 10)
      [(''u'', 0)])"
    by (simp add: SlidingWindow_allow_requests_def SlidingWindowRateLimiter_init_def Let_def)
  have h2: "SlidingWindow_allow_requests ?s ''u'' 5 = (False, ?s)"
    by (simp add: SlidingWindow_allow_requests_def Let_def)
  have h3: "user_requests ?s ''u'' \<noteq> None" by simp
  have h4: "(1::int) \<le> 1" by simp
  have "stored_requests ?s ''u'' = [0]" by (simp add: stored_requests_def)
  with sliding_window_denial_frame[OF h1 h2] h1 h2 h3 h4 show ?thesis by blast
qed

subsection \<open>Token bucket\<close>

text \<open>
  C2, as the code has it. A fresh limiter with capacity \<open>c\<close> and refill rate \<open>r\<close>
  receives any sequence of calls, for any users; the states considered are those after
  each prefix of the sequence. For any clock readings and any parameters, every bucket
  holds at most \<open>c\<close> tokens. When the clock readings do not decrease, a bucket present
  after \<open>i\<close> calls is present after \<open>j \<ge> i\<close> calls with a \<open>last_refill\<close> that is not
  earlier. When moreover \<open>c\<close> and \<open>r\<close> are not negative, every bucket holds at least 0
  tokens.
\<close>

theorem token_bucket_bounded:
  "(\<forall>n u b. buckets (snd (run_calls TokenBucket_allow_requests
                 (TokenBucketRateLimiter_init c r) (take n calls))) u = Some b \<longrightarrow>
            tokens b \<le> of_int c)
   \<and> (sorted (map snd calls) \<longrightarrow>
        (\<forall>i j u b. i \<le> j \<and> buckets (snd (run_calls TokenBucket_allow_requests
                 (TokenBucketRateLimiter_init c r) (take i calls))) u = Some b \<longrightarrow>
            (\<exists>b'. buckets (snd (run_calls TokenBucket_allow_requests
                 (TokenBucketRateLimiter_init c r) (take j calls))) u = Some b' \<and>
                 last_refill b \<le> last_refill b')))
   \<and> (sorted (map snd calls) \<and> 0 \<le> c \<and> 0 \<le> r \<longrightarrow>
        (\<forall>n u b. buckets (snd (run_calls TokenBucket_allow_requests
                 (TokenBucketRateLimiter_init c r) (take n calls))) u = Some b \<longrightarrow>
            0 \<le> tokens b))"
proof -
  let ?init = "TokenBucketRateLimiter_init c r"
  let ?st = "\<lambda>n. snd (run_calls TokenBucket_allow_requests ?init (take n calls))"
  define T0 where "T0 = (case calls of [] \<Rightarrow> 0 | x # _ \<Rightarrow> snd x)"
  have cfg: "capacity ?init = c" "refill_rate ?init = r"
    by (simp_all add: TokenBucketRateLimiter_init_def)
  have part1: "tokens b \<le> of_int c" if "buckets (?st n) u = Some b" for n u b
  proof -
    have "below_capacity (?st n)" by (intro below_capacity_run below_capacity_init)
    with that show ?thesis by (simp add: below_capacity_def TokenBucket_run_config cfg)
  qed
  have srtn: "sorted (T0 # map snd (take n calls))" if "sorted (map snd calls)" for n
  proof -
    have "sorted (T0 # map snd calls)"
      using that by (cases calls) (simp_all add: T0_def)
    moreover have "T0 # map snd (take n calls) = take (Suc n) (T0 # map snd calls)"
      by (simp add: take_map)
    ultimately show ?thesis using sorted_wrt_take by metis
  qed
  have part2: "\<exists>b'. buckets (?st j) u = Some b' \<and> last_refill b \<le> last_refill b'"
    if srt: "sorted (map snd calls)" and ij: "i \<le> j" and b: "buckets (?st i) u = Some b"
    for i j u b
  proof -
    let ?rest = "drop i (take j calls)"
    have r0: "refilled_by ?init T0"
      by (simp add: refilled_by_def TokenBucketRateLimiter_init_def)
    have ri: "refilled_by (?st i) (last (T0 # map snd (take i calls)))"
      using refilled_by_run[OF r0 srtn[OF srt, of i]] by simp
    have split: "take j calls = take i calls @ ?rest"
      using ij by (metis append_take_drop_id min.absorb1 take_take)
    have st: "?st j = snd (run_calls TokenBucket_allow_requests (?st i) ?rest)"
      by (subst split) (rule run_calls_append)
    have "sorted ((T0 # map snd (take i calls)) @ map snd ?rest)"
      using srtn[OF srt, of j] by (subst (asm) split) simp
    then have "sorted (last (T0 # map snd (take i calls)) # map snd ?rest)"
      by (rule sorted_last_append) simp
    then have "refill_mono (?st i) (?st j)"
      unfolding st using refilled_by_run[OF ri] by simp
    with b show ?thesis by (simp add: refill_mono_def)
  qed
  have part3: "0 \<le> tokens b"
    if srt: "sorted (map snd calls)" and c: "0 \<le> c" and r: "0 \<le> r"
      and b: "buckets (?st n) u = Some b" for n u b
  proof -
    have ok0: "bucket_ok ?init T0"
      by (simp add: bucket_ok_def TokenBucketRateLimiter_init_def)
    have "bucket_ok (?st n) (last (T0 # map snd (take n calls)))"
      using bucket_ok_run[OF ok0 srtn[OF srt, of n]] c r cfg by simp
    with b show ?thesis by (auto simp: bucket_ok_def)
  qed
  from part1 part2 part3 show ?thesis by blast
qed

text \<open>
  The theorem at capacity 1, rate 1 and calls at times 0, 0 and 1/2: the bucket is empty
  after the first call and holds half a token, refilled at 1/2, after the third.
\<close>

theorem token_bucket_bounded_witness:
  "sorted (map snd [(''u'', 0::real), (''u'', 0), (''u'', 1/2)])
   \<and> (0::int) \<le> 1 \<and> (0::real) \<le> 1 \<and> (1::nat) \<le> 3
   \<and> buckets (snd (run_calls TokenBucket_allow_requests (TokenBucketRateLimiter_init 1 1)
        (take 1 [(''u'', 0), (''u'', 0), (''u'', 1/2)]))) ''u'' = Some \<lparr>tokens = 0, last_refill = 0\<rparr>
   \<and> buckets (snd (run_calls TokenBucket_allow_requests (TokenBucketRateLimiter_init 1 1)
        (take 3 [(''u'', 0), (''u'', 0), (''u'', 1/2)]))) ''u'' = Some \<lparr>tokens = 1/2, last_refill = 1/2\<rparr>
   \<and> (0::real) \<le> tokens \<lparr>tokens = 1/2, last_refill = 1/2\<rparr>
   \<and> tokens \<lparr>tokens = 1/2, last_refill = 1/2\<rparr> \<le> of_int 1
   \<and> last_refill \<lparr>tokens = 0, last_refill = 0\<rparr> \<le> last_refill \<lparr>tokens = 1/2, last_refill = 1/2\<rparr>"
proof -
  let ?calls = "[(''u'', 0::real), (''u'', 0), (''u'', 1/2)]"
  let ?run = "\<lambda>n. snd (run_calls TokenBucket_allow_requests (TokenBucketRateLimiter_init 1 1)
        (take n ?calls))"
  have h1: "sorted (map snd ?calls)" by simp
  have h2: "(0::int) \<le> 1" and h3: "(0::real) \<le> 1" and h4: "(1::nat) \<le> 3" by simp_all
  have s1: "buckets (?run 1) ''u'' = Some \<lparr>tokens = 0, last_refill = 0\<rparr>"
    by (simp add: TokenBucket_allow_requests_def TokenBucketRateLimiter_init_def Let_def
        refill_def get_bucket_def)
  have s3: "buckets (?run 3) ''u'' = Some \<lparr>tokens = 1/2, last_refill = 1/2\<rparr>"
    by (simp add: TokenBucket_allow_requests_def TokenBucketRateLimiter_init_def Let_def
        refill_def get_bucket_def)
  note T = token_bucket_bounded[where calls = ?calls and c = 1 and r = 1]
  from T s3 have a: "tokens \<lparr>tokens = 1/2, last_refill = 1/2\<rparr> \<le> of_int 1"
    by blast
  from T h1 h2 h3 s3 have a': "(0::real) \<le> tokens \<lparr>tokens = 1/2, last_refill = 1/2\<rparr>"
    by blast
  have "\<exists>b'. buckets (?run 3) ''u'' = Some b' \<and>
      last_refill \<lparr>tokens = 0, last_refill = 0\<rparr> \<le> last_refill b'"
    using T h1 h4 s1 by blast
  with s3 have b: "last_refill \<lparr>tokens = 0, last_refill = 0\<rparr>
      \<le> last_refill \<lparr>tokens = 1/2, last_refill = 1/2\<rparr>" by simp
  from h1 h2 h3 h4 s1 s3 a a' b show ?thesis by blast
qed

text \<open>
  C2 as stated, for any clock readings, fails. With capacity 1 and rate 1 a call at time
  10 empties the bucket; a call whose clock reads 8 then computes an elapsed time of -2,
  is denied, and leaves -2 tokens and a \<open>last_refill\<close> of 8, earlier than the 10 before.
\<close>

theorem token_bucket_bounded_counterexample:
  "fst (run_calls TokenBucket_allow_requests (TokenBucketRateLimiter_init 1 1)
        [(''u'', 10), (''u'', 8)]) = [True, False]
   \<and> buckets (snd (run_calls TokenBucket_allow_requests (TokenBucketRateLimiter_init 1 1)
        [(''u'', 10)])) ''u'' = Some \<lparr>tokens = 0, last_refill = 10\<rparr>
   \<and> buckets (snd (run_calls TokenBucket_allow_requests (TokenBucketRateLimiter_init 1 1)
        [(''u'', 10), (''u'', 8)])) ''u'' = Some \<lparr>tokens = - 2, last_refill = 8\<rparr>
   \<and> \<not> (0::real) \<le> - 2 \<and> \<not> (10::real) \<le> 8"
  by (simp add: TokenBucket_allow_requests_def TokenBucketRateLimiter_init_def Let_def
      refill_def get_bucket_def)

text \<open>
  C4. Token-bucket step. For a user who already has a bucket, the call computes
  \<open>elapsed = now - last_refill\<close>, refills to
  \<open>min capacity (tokens + elapsed * refill_rate)\<close>, and stores \<open>now\<close> as \<open>last_refill\<close> on both
  branches: if the refilled count is at least 1 it answers \<open>True\<close> and stores the count
  less one, otherwise it answers \<open>False\<close> and stores the refilled count.
\<close>

theorem token_bucket_step:
  assumes "buckets self user_id = Some b"
  shows "TokenBucket_allow_requests self user_id now =
     (let elapsed = now - last_refill b;
          refilled = min (of_int (capacity self)) (tokens b + elapsed * refill_rate self)
      in if refilled \<ge> 1
         then (True, self\<lparr>buckets := (buckets self)(user_id \<mapsto> \<lparr>tokens = refilled - 1, last_refill = now\<rparr>)\<rparr>)
         else (False, self\<lparr>buckets := (buckets self)(user_id \<mapsto> \<lparr>tokens = refilled, last_refill = now\<rparr>)\<rparr>))"
  using assms by (simp add: TokenBucket_allow_requests_def refill_def get_bucket_def Let_def)

text \<open>
  The theorem at an empty bucket last refilled at 0, capacity 5 and rate 1: denied at
  time 1/2 with half a token left in place, admitted at time 3 with two tokens left.
\<close>

theorem token_bucket_step_witness:
  "buckets \<lparr>capacity = 5, refill_rate = 1, buckets = [''u'' \<mapsto> \<lparr>tokens = 0, last_refill = 0\<rparr>]\<rparr> ''u''
       = Some \<lparr>tokens = 0, last_refill = 0\<rparr>
   \<and> TokenBucket_allow_requests
        \<lparr>capacity = 5, refill_rate = 1, buckets = [''u'' \<mapsto> \<lparr>tokens = 0, last_refill = 0\<rparr>]\<rparr> ''u'' (1/2)
       = (False, \<lparr>capacity = 5, refill_rate = 1,
                  buckets = [''u'' \<mapsto> \<lparr>tokens = 1/2, last_refill = 1/2\<rparr>]\<rparr>)
   \<and> TokenBucket_allow_requests
        \<lparr>capacity = 5, refill_rate = 1, buckets = [''u'' \<mapsto> \<lparr>tokens = 0, last_refill = 0\<rparr>]\<rparr> ''u'' 3
       = (True, \<lparr>capacity = 5, refill_rate = 1,
                  buckets = [''u'' \<mapsto> \<lparr>tokens = 2, last_refill = 3\<rparr>]\<rparr>)"
proof -
  let ?s = "\<lparr>capacity = 5, refill_rate = 1, buckets = [''u'' \<mapsto> \<lparr>tokens = 0, last_refill = 0\<rparr>]\<rparr>"
  have h: "buckets ?s ''u'' = Some \<lparr>tokens = 0, last_refill = 0\<rparr>" by simp
  show ?thesis
    using h token_bucket_step[OF h, of "1/2"] token_bucket_step[OF h, of 3]
    by (simp add: Let_def)
qed

text \<open>
  C7, as the code has it. The refill uses \<open>elapsed = now - last_refill\<close> as computed, with
  no clamping. When \<open>last_refill\<close> is not after \<open>now\<close> (rate not negative, tokens within
  capacity) the refill does not reduce the token count. When \<open>last_refill\<close> lies after
  \<open>now\<close> and the rate is positive, the refill strictly reduces it; the reduction is
  exactly \<open>(last_refill - now) * refill_rate\<close> for a bucket whose tokens do not exceed
  capacity, and so for every bucket that a limiter holds after any calls at any clock
  readings.
\<close>

theorem token_bucket_refill_unclamped:
  "tokens (refill self b now) =
       min (of_int (capacity self)) (tokens b + (now - last_refill b) * refill_rate self)
   \<and> (last_refill b \<le> now \<and> 0 \<le> refill_rate self \<and> tokens b \<le> of_int (capacity self) \<longrightarrow>
        tokens b \<le> tokens (refill self b now))
   \<and> (now < last_refill b \<and> 0 < refill_rate self \<longrightarrow>
        tokens (refill self b now) < tokens b)
   \<and> (now < last_refill b \<and> 0 < refill_rate self \<and> tokens b \<le> of_int (capacity self) \<longrightarrow>
        tokens (refill self b now) = tokens b - (last_refill b - now) * refill_rate self)
   \<and> (buckets (snd (run_calls TokenBucket_allow_requests (TokenBucketRateLimiter_init c r) calls)) u
          = Some b' \<and> now < last_refill b' \<and> 0 < r \<longrightarrow>
        tokens (refill (snd (run_calls TokenBucket_allow_requests
                   (TokenBucketRateLimiter_init c r) calls)) b' now)
          = tokens b' - (last_refill b' - now) * r)"
proof -
  have 1: "tokens (refill s x now) =
       min (of_int (capacity s)) (tokens x + (now - last_refill x) * refill_rate s)"
    for s :: TokenBucketRateLimiter and x :: bucket
    by (simp add: refill_def Let_def)
  have 2: "tokens b \<le> tokens (refill self b now)"
    if "last_refill b \<le> now" "0 \<le> refill_rate self" "tokens b \<le> of_int (capacity self)"
  proof -
    have "0 \<le> (now - last_refill b) * refill_rate self"
      using that by (intro mult_nonneg_nonneg) simp_all
    with that(3) show ?thesis unfolding 1 by simp
  qed
  have neg: "(now - last_refill x) * refill_rate s < 0"
    if "now < last_refill x" "0 < refill_rate s"
    for s :: TokenBucketRateLimiter and x :: bucket
    using that by (intro mult_neg_pos) simp_all
  have 3: "tokens (refill self b now) < tokens b"
    if "now < last_refill b" "0 < refill_rate self"
    using neg[OF that] unfolding 1 by (simp add: min_def)
  have 4: "tokens (refill s x now) = tokens x - (last_refill x - now) * refill_rate s"
    if "now < last_refill x" "0 < refill_rate s" "tokens x \<le> of_int (capacity s)"
    for s :: TokenBucketRateLimiter and x :: bucket
  proof -
    have "tokens x + (now - last_refill x) * refill_rate s \<le> of_int (capacity s)"
      using neg[OF that(1,2)] that(3) by simp
    then have "tokens (refill s x now) = tokens x + (now - last_refill x) * refill_rate s"
      unfolding 1 by simp
    then show ?thesis by (simp add: algebra_simps)
  qed
  let ?s = "snd (run_calls TokenBucket_allow_requests (TokenBucketRateLimiter_init c r) calls)"
  have 5: "tokens (refill ?s b' now) = tokens b' - (last_refill b' - now) * r"
    if b': "buckets ?s u = Some b'" and lt: "now < last_refill b'" and r: "0 < r"
  proof -
    have cfg: "refill_rate ?s = r"
      by (simp add: TokenBucket_run_config TokenBucketRateLimiter_init_def)
    have "below_capacity ?s" by (intro below_capacity_run below_capacity_init)
    with b' have "tokens b' \<le> of_int (capacity ?s)" by (simp add: below_capacity_def)
    from 4[OF lt _ this] r show ?thesis by (simp add: cfg)
  qed
  from 1[of self b] 2 3 4[of b self] 5 show ?thesis by blast
qed

text \<open>
  The theorem at half a token, rate 1 and a clock that reads 1 or 0: a bucket refilled
  at 0 gains; a bucket refilled at 2 loses one token; the bucket left by calls at 0 and
  1/2 on a fresh limiter of capacity 1 loses its half token when the clock reads 0.
\<close>

theorem token_bucket_refill_unclamped_witness:
  "(0::real) \<le> 1 \<and> (0::real) < 1 \<and> (1/2::real) \<le> of_int 5 \<and> (1::real) < 2
   \<and> tokens \<lparr>tokens = 1/2, last_refill = 0\<rparr>
        \<le> tokens (refill \<lparr>capacity = 5, refill_rate = 1, buckets = Map.empty\<rparr>
                    \<lparr>tokens = 1/2, last_refill = 0\<rparr> 1)
   \<and> tokens (refill \<lparr>capacity = 5, refill_rate = 1, buckets = Map.empty\<rparr>
                    \<lparr>tokens = 1/2, last_refill = 2\<rparr> 1) = 1/2 - (2 - 1) * 1
   \<and> buckets (snd (run_calls TokenBucket_allow_requests (TokenBucketRateLimiter_init 1 1)
        [(''u'', 0), (''u'', 1/2)])) ''u'' = Some \<lparr>tokens = 1/2, last_refill = 1/2\<rparr>
   \<and> tokens (refill (snd (run_calls TokenBucket_allow_requests (TokenBucketRateLimiter_init 1 1)
        [(''u'', 0), (''u'', 1/2)])) \<lparr>tokens = 1/2, last_refill = 1/2\<rparr> 0) = 1/2 - (1/2 - 0) * 1"
proof -
  let ?l = "\<lparr>capacity = 5, refill_rate = 1, buckets = Map.empty\<rparr>"
  let ?calls = "[(''u'', 0::real), (''u'', 1/2)]"
  have s: "buckets (snd (run_calls TokenBucket_allow_requests (TokenBucketRateLimiter_init 1 1)
        ?calls)) ''u'' = Some \<lparr>tokens = 1/2, last_refill = 1/2\<rparr>"
    by (simp add: TokenBucket_allow_requests_def TokenBucketRateLimiter_init_def Let_def
        refill_def get_bucket_def)
  have a: "tokens \<lparr>tokens = 1/2, last_refill = 0\<rparr>
        \<le> tokens (refill ?l \<lparr>tokens = 1/2, last_refill = 0\<rparr> 1)"
    using token_bucket_refill_unclamped[where self = ?l
        and b = "\<lparr>tokens = 1/2, last_refill = 0\<rparr>" and now = 1]
    by simp
  have b: "tokens (refill ?l \<lparr>tokens = 1/2, last_refill = 2\<rparr> 1) = 1/2 - (2 - 1) * 1"
    using token_bucket_refill_unclamped[where self = ?l
        and b = "\<lparr>tokens = 1/2, last_refill = 2\<rparr>" and now = 1]
    by simp
  let ?b' = "\<lparr>tokens = 1/2, last_refill = 1/2\<rparr>"
  have h: "(0::real) < last_refill ?b'" "(0::real) < 1" by simp_all
  from token_bucket_refill_unclamped[where self = ?l and b = ?b' and c = 1 and r = 1
        and calls = ?calls and u = "''u''" and b' = ?b' and now = 0] s h
  have "tokens (refill (snd (run_calls TokenBucket_allow_requests
        (TokenBucketRateLimiter_init 1 1) ?calls)) ?b' 0)
      = tokens ?b' - (last_refill ?b' - 0) * 1"
    by blast
  then have c: "tokens (refill (snd (run_calls TokenBucket_allow_requests
        (TokenBucketRateLimiter_init 1 1) ?calls)) \<lparr>tokens = 1/2, last_refill = 1/2\<rparr> 0)
      = 1/2 - (1/2 - 0) * 1"
    by simp
  have n: "(0::real) \<le> 1 \<and> (0::real) < 1 \<and> (1/2::real) \<le> of_int 5 \<and> (1::real) < 2"
    by simp
  from n a b s c show ?thesis by blast
qed

text \<open>
  C7 as stated fails. With capacity 1 and rate 1, calls at times 0 and 1/2 leave half a
  token with \<open>last_refill = 1/2\<close>; a further call whose clock reads 0 computes an elapsed
  time of -1/2, is denied, and leaves the bucket with no token.
\<close>

theorem token_bucket_clamp_counterexample:
  "fst (run_calls TokenBucket_allow_requests (TokenBucketRateLimiter_init 1 1)
        [(''u'', 0), (''u'', 1/2), (''u'', 0)]) = [True, False, False]
   \<and> buckets (snd (run_calls TokenBucket_allow_requests (TokenBucketRateLimiter_init 1 1)
        [(''u'', 0), (''u'', 1/2)])) ''u'' = Some \<lparr>tokens = 1/2, last_refill = 1/2\<rparr>
   \<and> buckets (snd (run_calls TokenBucket_allow_requests (TokenBucketRateLimiter_init 1 1)
        [(''u'', 0), (''u'', 1/2), (''u'', 0)])) ''u'' = Some \<lparr>tokens = 0, last_refill = 0\<rparr>
   \<and> tokens (refill (TokenBucketRateLimiter_init 1 1) \<lparr>tokens = 1/2, last_refill = 1/2\<rparr> 0)
        < tokens \<lparr>tokens = 1/2, last_refill = 1/2\<rparr>"
  by (simp add: TokenBucket_allow_requests_def TokenBucketRateLimiter_init_def Let_def
      refill_def get_bucket_def)

text \<open>
  C8. Token-bucket scenario. On a limiter with capacity 5 and refill rate 1 and a user
  without a bucket, six calls at one instant \<open>t\<close> are answered \<open>True\<close> five times and then
  \<open>False\<close>, and a call at \<open>t + 2\<close> is answered \<open>True\<close> and leaves exactly one token.
\<close>

theorem token_bucket_scenario:
  assumes "buckets self u = None" "capacity self = 5" "refill_rate self = 1"
  shows "fst (run_calls TokenBucket_allow_requests self
            [(u, t), (u, t), (u, t), (u, t), (u, t), (u, t), (u, t + 2)])
          = [True, True, True, True, True, False, True]
       \<and> buckets (snd (run_calls TokenBucket_allow_requests self
            [(u, t), (u, t), (u, t), (u, t), (u, t), (u, t), (u, t + 2)])) u
          = Some \<lparr>tokens = 1, last_refill = t + 2\<rparr>"
  using assms by (simp add: TokenBucket_allow_requests_def refill_def get_bucket_def Let_def)

text \<open>
  The theorem at a fresh limiter, the user \<open>u1\<close> and the instant 100.
\<close>

theorem token_bucket_scenario_witness:
  "buckets (TokenBucketRateLimiter_init 5 1) ''u1'' = None
   \<and> capacity (TokenBucketRateLimiter_init 5 1) = 5
   \<and> refill_rate (TokenBucketRateLimiter_init 5 1) = 1
   \<and> fst (run_calls TokenBucket_allow_requests (TokenBucketRateLimiter_init 5 1)
        [(''u1'', 100), (''u1'', 100), (''u1'', 100), (''u1'', 100), (''u1'', 100), (''u1'', 100),
         (''u1'', 100 + 2)]) = [True, True, True, True, True, False, True]
   \<and> buckets (snd (run_calls TokenBucket_allow_requests (TokenBucketRateLimiter_init 5 1)
        [(''u1'', 100), (''u1'', 100), (''u1'', 100), (''u1'', 100), (''u1'', 100), (''u1'', 100),
         (''u1'', 100 + 2)])) ''u1'' = Some \<lparr>tokens = 1, last_refill = 100 + 2\<rparr>"
proof -
  have h1: "buckets (TokenBucketRateLimiter_init 5 1) ''u1'' = None"
    and h2: "capacity (TokenBucketRateLimiter_init 5 1) = 5"
    and h3: "refill_rate (TokenBucketRateLimiter_init 5 1) = 1"
    by (simp_all add: TokenBucketRateLimiter_init_def)
  from token_bucket_scenario[OF h1 h2 h3, of 100] h1 h2 h3 show ?thesis by blast
qed

subsection \<open>Both limiters\<close>




text \<open>
  C9. Per-key isolation. For both limiters, from any limiter state and for any sequence
  of calls at any clock readings, the answers given to user \<open>a\<close> are those of the run in
  which only the calls of \<open>a\<close> are made. A call for another user \<open>b\<close> leaves the entry of
  \<open>a\<close> as it was, and its answer is the same in any two limiter objects that agree on the
  entry of \<open>b\<close> and on the construction parameters, whatever they hold for \<open>a\<close>.
\<close>

theorem per_key_isolation:
  "results_for a calls (fst (run_calls SlidingWindow_allow_requests sw calls)) =
       fst (run_calls SlidingWindow_allow_requests sw (filter (\<lambda>c. fst c = a) calls))
   \<and> results_for a calls (fst (run_calls TokenBucket_allow_requests tb calls)) =
       fst (run_calls TokenBucket_allow_requests tb (filter (\<lambda>c. fst c = a) calls))
   \<and> (b \<noteq> a \<longrightarrow>
        user_requests (snd (SlidingWindow_allow_requests sw b t)) a = user_requests sw a \<and>
        buckets (snd (TokenBucket_allow_requests tb b t)) a = buckets tb a)
   \<and> (sw_same_for b sw sw' \<longrightarrow>
        fst (SlidingWindow_allow_requests sw b t) = fst (SlidingWindow_allow_requests sw' b t))
   \<and> (tb_same_for b tb tb' \<longrightarrow>
        fst (TokenBucket_allow_requests tb b t) = fst (TokenBucket_allow_requests tb' b t))"
proof -
  have rd1: "fst (SlidingWindow_allow_requests sw b t) = fst (SlidingWindow_allow_requests sw' b t)"
    if "sw_same_for b sw sw'"
    using that by (simp add: sw_same_for_def SlidingWindow_allow_requests_def Let_def)
  have rd2: "fst (TokenBucket_allow_requests tb b t) = fst (TokenBucket_allow_requests tb' b t)"
    if e: "tb_same_for b tb tb'"
  proof -
    have "refill tb (get_bucket tb b t) t = refill tb' (get_bucket tb' b t) t"
      using e by (cases "buckets tb' b") (simp_all add: tb_same_for_def get_bucket_def refill_def)
    then show ?thesis by (simp add: TokenBucket_allow_requests_def Let_def)
  qed
  show ?thesis
    using sw_isolation[of a calls sw] tb_isolation[of a calls tb] rd1 rd2
      SlidingWindow_other[of b a sw t] TokenBucket_other[of b a tb t]
    by blast
qed

text \<open>
  The theorem at two users and five interleaved calls, on a sliding window of one
  request per ten seconds and a bucket of capacity 1 and rate 1.
\<close>

theorem per_key_isolation_witness:
  "''b'' \<noteq> ''a''
   \<and> sw_same_for ''b'' (SlidingWindowRateLimiter_init 1 10)
        (snd (SlidingWindow_allow_requests (SlidingWindowRateLimiter_init 1 10) ''a'' 0))
   \<and> tb_same_for ''b'' (TokenBucketRateLimiter_init 1 1)
        (snd (TokenBucket_allow_requests (TokenBucketRateLimiter_init 1 1) ''a'' 0))
   \<and> results_for ''a'' [(''a'', 0), (''b'', 0), (''b'', 1), (''a'', 1), (''b'', 2)]
        (fst (run_calls SlidingWindow_allow_requests (SlidingWindowRateLimiter_init 1 10)
           [(''a'', 0), (''b'', 0), (''b'', 1), (''a'', 1), (''b'', 2)]))
       = fst (run_calls SlidingWindow_allow_requests (SlidingWindowRateLimiter_init 1 10)
           [(''a'', 0), (''a'', 1)])
   \<and> results_for ''a'' [(''a'', 0), (''b'', 0), (''b'', 1), (''a'', 1), (''b'', 2)]
        (fst (run_calls TokenBucket_allow_requests (TokenBucketRateLimiter_init 1 1)
           [(''a'', 0), (''b'', 0), (''b'', 1), (''a'', 1), (''b'', 2)]))
       = fst (run_calls TokenBucket_allow_requests (TokenBucketRateLimiter_init 1 1)
           [(''a'', 0), (''a'', 1)])
   \<and> user_requests (snd (SlidingWindow_allow_requests (SlidingWindowRateLimiter_init 1 10) ''b'' 0)) ''a''
       = user_requests (SlidingWindowRateLimiter_init 1 10) ''a''
   \<and> buckets (snd (TokenBucket_allow_requests (TokenBucketRateLimiter_init 1 1) ''b'' 0)) ''a''
       = buckets (TokenBucketRateLimiter_init 1 1) ''a''
   \<and> fst (SlidingWindow_allow_requests (SlidingWindowRateLimiter_init 1 10) ''b'' 0)
       = fst (SlidingWindow_allow_requests
           (snd (SlidingWindow_allow_requests (SlidingWindowRateLimiter_init 1 10) ''a'' 0)) ''b'' 0)
   \<and> fst (TokenBucket_allow_requests (TokenBucketRateLimiter_init 1 1) ''b'' 0)
       = fst (TokenBucket_allow_requests
           (snd (TokenBucket_allow_requests (TokenBucketRateLimiter_init 1 1) ''a'' 0)) ''b'' 0)"
proof -
  let ?sw = "SlidingWindowRateLimiter_init 1 10" and ?tb = "TokenBucketRateLimiter_init 1 1"
  let ?calls = "[(''a'', 0::real), (''b'', 0), (''b'', 1), (''a'', 1), (''b'', 2)]"
  have h1: "''b'' \<noteq> ''a''" by simp
  have h2: "sw_same_for ''b'' ?sw (snd (SlidingWindow_allow_requests ?sw ''a'' 0))"
    by (simp add: sw_same_for_def SlidingWindow_allow_requests_def Let_def
        SlidingWindowRateLimiter_init_def)
  have h3: "tb_same_for ''b'' ?tb (snd (TokenBucket_allow_requests ?tb ''a'' 0))"
    by (simp add: tb_same_for_def TokenBucket_allow_requests_def Let_def
        TokenBucketRateLimiter_init_def)
  have f: "filter (\<lambda>c. fst c = ''a'') ?calls = [(''a'', 0), (''a'', 1)]" by simp
  note T = per_key_isolation[where a = "''a''" and b = "''b''" and calls = ?calls and sw = ?sw
      and tb = ?tb and t = 0
      and sw' = "snd (SlidingWindow_allow_requests ?sw ''a'' 0)"
      and tb' = "snd (TokenBucket_allow_requests ?tb ''a'' 0)", unfolded f]
  from T h1 h2 h3 show ?thesis by blast
qed

text \<open>
  C10. First call of a fresh user. A user without an entry is admitted by the sliding
  window when \<open>max_requests\<close> is at least 1 and by the token bucket when \<open>capacity\<close> is at
  least 1. The token bucket creates the bucket with \<open>tokens = capacity\<close> and
  \<open>last_refill = now\<close>, so that the admitted call leaves \<open>capacity - 1\<close> tokens.
\<close>

theorem first_call_admitted:
  "(user_requests sw u = None \<and> 1 \<le> max_requests sw \<longrightarrow>
        fst (SlidingWindow_allow_requests sw u t))
   \<and> (buckets tb u = None \<longrightarrow>
        get_bucket tb u now = \<lparr>tokens = of_int (capacity tb), last_refill = now\<rparr>)
   \<and> (buckets tb u = None \<and> 1 \<le> capacity tb \<longrightarrow>
        fst (TokenBucket_allow_requests tb u now) \<and>
        buckets (snd (TokenBucket_allow_requests tb u now)) u =
          Some \<lparr>tokens = of_int (capacity tb) - 1, last_refill = now\<rparr>)"
  by (simp add: SlidingWindow_allow_requests_def TokenBucket_allow_requests_def Let_def
      refill_def get_bucket_def)

text \<open>
  The theorem at fresh limiters with \<open>max_requests = 1\<close> and \<open>capacity = 1\<close>.
\<close>

theorem first_call_admitted_witness:
  "user_requests (SlidingWindowRateLimiter_init 1 10) ''a'' = None
   \<and> (1::int) \<le> max_requests (SlidingWindowRateLimiter_init 1 10)
   \<and> fst (SlidingWindow_allow_requests (SlidingWindowRateLimiter_init 1 10) ''a'' 3)
   \<and> buckets (TokenBucketRateLimiter_init 1 2) ''a'' = None
   \<and> (1::int) \<le> capacity (TokenBucketRateLimiter_init 1 2)
   \<and> get_bucket (TokenBucketRateLimiter_init 1 2) ''a'' 3 = \<lparr>tokens = 1, last_refill = 3\<rparr>
   \<and> fst (TokenBucket_allow_requests (TokenBucketRateLimiter_init 1 2) ''a'' 3)
   \<and> buckets (snd (TokenBucket_allow_requests (TokenBucketRateLimiter_init 1 2) ''a'' 3)) ''a'' =
          Some \<lparr>tokens = 0, last_refill = 3\<rparr>"
  using first_call_admitted[where sw = "SlidingWindowRateLimiter_init 1 10" and u = "''a''"
      and tb = "TokenBucketRateLimiter_init 1 2" and t = 3 and now = 3]
  by (simp add: SlidingWindowRateLimiter_init_def TokenBucketRateLimiter_init_def)

end
